theory Spec2Isabelle
  imports Main "HOL-Library.Word"
begin

unbundle bit_operations_syntax

section \<open>The xorshift128+ generator of poc\_char.c\<close>

text \<open>
  The generator state is the array \<open>uint64_t s[2]\<close>; it is modelled as the pair
  \<open>(s[0], s[1])\<close> of 64-bit words. Functions that mutate the array through the pointer
  return the new pair.
\<close>

type_synonym u8 = "8 word"
type_synonym u64 = "64 word"
type_synonym rstate = "u64 \<times> u64"

subsection \<open>spl\_rand\_next\<close>

text \<open>
  \<^verbatim>\<open>
  uint64_t s1 = s[0];
  const uint64_t s0 = s[1];
  s[0] = s0;
  s1 ^= s1 << 23;
  s[1] = s1 ^ s0 ^ (s1 >> 18) ^ (s0 >> 5);
  return (s[1] + s0);
  \<close>
  The result is the returned output together with the updated array.
\<close>

definition spl_rand_next :: "rstate \<Rightarrow> u64 \<times> rstate" where
  "spl_rand_next s =
     (let s1 = fst s;
          s0 = snd s;
          s1 = s1 XOR push_bit 23 s1;
          n1 = s1 XOR s0 XOR drop_bit 18 s1 XOR drop_bit 5 s0
      in (n1 + s0, (s0, n1)))"

text \<open>The state after one call.\<close>

definition next_state :: "rstate \<Rightarrow> rstate" where
  "next_state s = snd (spl_rand_next s)"

subsection \<open>spl\_rand\_jump\<close>

definition JUMP :: "u64 list" where
  "JUMP = [0x8a5cd789635d2dff, 0x121fd2155c472f96]"

text \<open>
  The body of the inner loop, for the word \<open>JUMP[i] = j\<close> and the bit index \<open>b\<close>. The loop
  state is the pair of the accumulators \<open>(s0, s1)\<close> and the array \<open>s\<close>:
  \<^verbatim>\<open>
  if (JUMP[i] & 1ULL << b) { s0 ^= s[0]; s1 ^= s[1]; }
  (void) spl_rand_next(s);
  \<close>
\<close>

definition jump_body :: "u64 \<Rightarrow> nat \<Rightarrow> rstate \<times> rstate \<Rightarrow> rstate \<times> rstate" where
  "jump_body j b = (\<lambda>(acc, s).
     ((if j AND push_bit b 1 \<noteq> 0 then (fst acc XOR fst s, snd acc XOR snd s) else acc),
      snd (spl_rand_next s)))"

text \<open>
  The two nested loops run over the words of \<open>JUMP\<close> and over \<open>b = 0, ..., 63\<close>; the
  accumulators become the new array.
\<close>

definition spl_rand_jump :: "rstate \<Rightarrow> rstate" where
  "spl_rand_jump s = fst (fold (\<lambda>j. fold (jump_body j) [0..<64]) JUMP ((0, 0), s))"

subsection \<open>Memory and byte order\<close>

text \<open>
  A buffer is modelled by the bytes found at each offset from its base pointer. The offsets
  are integers, since the code adds signed values to pointers.

  \<open>union_byte e w i\<close> is \<open>entropy.byte[i]\<close> when \<open>entropy.ui64 = w\<close>: the byte at offset
  \<open>i < 8\<close> of the object representation of \<open>w\<close>, which is its byte \<open>i\<close> counted from the
  least significant one on a little-endian host and from the most significant one on a
  big-endian host. \<open>store64\<close> is the store \<open>*(uint64_t *)(m + off) = w\<close>, and \<open>load64\<close> reads
  a \<open>uint64_t\<close> back from its eight bytes.
\<close>

datatype errno = EFAULT | ENOMEM

datatype endian = LittleEndian | BigEndian

type_synonym mem = "int \<Rightarrow> u8"

definition union_byte :: "endian \<Rightarrow> u64 \<Rightarrow> nat \<Rightarrow> u8" where
  "union_byte e w i =
     (case e of
        LittleEndian \<Rightarrow> ucast (drop_bit (8 * i) w)
      | BigEndian \<Rightarrow> ucast (drop_bit (8 * (7 - i)) w))"

definition store64 :: "endian \<Rightarrow> mem \<Rightarrow> int \<Rightarrow> u64 \<Rightarrow> mem" where
  "store64 e m off w =
     (\<lambda>a. if off \<le> a \<and> a < off + 8 then union_byte e w (nat (a - off)) else m a)"

definition load64 :: "endian \<Rightarrow> u8 list \<Rightarrow> u64" where
  "load64 e bs =
     (case e of
        LittleEndian \<Rightarrow> foldr (\<lambda>b w. ucast b OR push_bit 8 w) bs 0
      | BigEndian \<Rightarrow> fold (\<lambda>b w. push_bit 8 w OR ucast b) bs 0)"

subsection \<open>spl\_random\_init\<close>

text \<open>
  The string literal \<open>"improbable seed"\<close> with its terminating zero: the 16 bytes that
  \<open>memcpy(s, "improbable seed", sizeof (s))\<close> copies over the array.
\<close>

definition improbable_seed :: "u8 list" where
  "improbable_seed = map of_char ''improbable seed'' @ [0]"

text \<open>
  The seed after the test for a zero result of \<open>get_random_bytes\<close>. The result of
  \<open>get_random_bytes\<close> and the value read from \<open>jiffies\<close> are inputs; \<open>unsigned long\<close> has
  64 bits, and \<open>~0 - jiffies\<close> is computed in that type.
  \<^verbatim>\<open>
  if (s[0] == 0 && s[1] == 0) {
      if (jiffies != 0) { s[0] = jiffies; s[1] = ~0 - jiffies; }
      else { (void) memcpy(s, "improbable seed", sizeof (s)); }
  }
  \<close>
\<close>

definition seed_fallback :: "endian \<Rightarrow> rstate \<Rightarrow> u64 \<Rightarrow> rstate" where
  "seed_fallback e s jiffies =
     (if fst s = 0 \<and> snd s = 0 then
        (if jiffies \<noteq> 0 then (jiffies, NOT 0 - jiffies)
         else (load64 e (take 8 improbable_seed), load64 e (drop 8 improbable_seed)))
      else s)"

text \<open>
  The per-CPU area maps the number of a CPU to its state, as \<open>per_cpu_ptr\<close> does. The macro
  \<open>for_each_possible_cpu\<close> belongs to the kernel: the list \<open>cpus\<close> of the CPUs that it
  visits, in the order of the visits, is an input.
  \<^verbatim>\<open>
  for_each_possible_cpu(i) {
      uint64_t *wordp = per_cpu_ptr(spl_pseudo_entropy, i);
      spl_rand_jump(s);
      wordp[0] = s[0]; wordp[1] = s[1];
  }
  \<close>
\<close>

definition seed_cpus :: "nat list \<Rightarrow> rstate \<Rightarrow> (nat \<Rightarrow> rstate) \<Rightarrow> rstate \<times> (nat \<Rightarrow> rstate)" where
  "seed_cpus cpus s percpu =
     fold (\<lambda>i (s, percpu). let s' = spl_rand_jump s in (s', percpu(i := s'))) cpus (s, percpu)"

text \<open>
  \<open>alloc\<close> is what \<open>__alloc_percpu\<close> returns: \<open>None\<close> for a null pointer, or the fresh area.
  The result is the error, or the seeded per-CPU area (where the code returns 0).
\<close>

definition spl_random_init ::
  "endian \<Rightarrow> (nat \<Rightarrow> rstate) option \<Rightarrow> nat list \<Rightarrow> rstate \<Rightarrow> u64
     \<Rightarrow> errno + (nat \<Rightarrow> rstate)" where
  "spl_random_init e alloc cpus entropy jiffies =
     (case alloc of
        None \<Rightarrow> Inl ENOMEM
      | Some percpu \<Rightarrow> Inr (snd (seed_cpus cpus (seed_fallback e entropy jiffies) percpu)))"

subsection \<open>random\_get\_pseudo\_bytes\<close>

text \<open>
  The inner loop \<^verbatim>\<open>while (i--) *ptr++ = entropy.byte[i];\<close> on the memory and the offset of
  \<open>ptr\<close>. The counter \<open>i\<close> is at most 8.
\<close>

fun emit :: "endian \<Rightarrow> u64 \<Rightarrow> nat \<Rightarrow> mem \<times> int \<Rightarrow> mem \<times> int" where
  "emit e w 0 (m, p) = (m, p)"
| "emit e w (Suc i) (m, p) = emit e w i (m(p := union_byte e w i), p + 1)"

text \<open>
  The outer loop, on the remaining length, the local copy \<open>s\<close> of the state, the memory and
  the offset of \<open>ptr\<close>:
  \<^verbatim>\<open>
  while (len) {
      int i = MIN(len, sizeof (uint64_t));
      len -= i;
      entropy.ui64 = spl_rand_next(s);
      while (i--) *ptr++ = entropy.byte[i];
  }
  \<close>
\<close>

function fill_loop :: "endian \<Rightarrow> u64 \<Rightarrow> rstate \<Rightarrow> mem \<times> int \<Rightarrow> rstate \<times> mem \<times> int" where
  "fill_loop e len s mp =
     (if len \<noteq> 0 then
        let i = min len 8;
            r = spl_rand_next s
        in fill_loop e (len - i) (snd r) (emit e (fst r) (unat i) mp)
      else (s, mp))"
  by pat_completeness auto
termination
proof (relation "measure (\<lambda>(e, len, s, mp). unat len)")
  show "wf (measure (\<lambda>(e, len, s, mp). unat len))" by simp
next
  fix e :: endian and len :: u64 and s :: rstate and mp :: "mem \<times> int" and x xa
  assume len: "len \<noteq> 0" and x: "x = min len 8"
  have le: "x \<le> len" by (simp add: x)
  have "x \<noteq> 0" using len by (auto simp: x min_def)
  then have "0 < unat x" by (simp add: unat_gt_0)
  moreover have "unat (len - x) = unat len - unat x" using le by (rule unat_sub)
  moreover have "unat x \<le> unat len" using le by (simp add: word_le_nat_alt)
  ultimately have "unat (len - x) < unat len" by simp
  then show "((e, len - x, snd xa, emit e (fst xa) (unat x) mp), e, len, s, mp)
       \<in> measure (\<lambda>(e, len, s, mp). unat len)"
    by simp
qed

declare fill_loop.simps [simp del]

text \<open>
  \<open>xp\<close> is the state of the current CPU, \<open>ptr\<close> the destination memory. The result is the
  returned \<open>int\<close>, the state written back through \<open>xp\<close>, and the destination memory.
\<close>

definition random_get_pseudo_bytes ::
  "endian \<Rightarrow> rstate \<Rightarrow> mem \<Rightarrow> u64 \<Rightarrow> int \<times> rstate \<times> mem" where
  "random_get_pseudo_bytes e xp ptr len =
     (let s = xp;
          r = fill_loop e len s (ptr, 0);
          xp = fst r
      in (0, xp, fst (snd r)))"

subsection \<open>poc\_read\<close>

definition P2ROUNDUP :: "u64 \<Rightarrow> u64 \<Rightarrow> u64" where
  "P2ROUNDUP x align = ((x - 1) OR (align - 1)) + 1"

text \<open>
  The generating loop. The counter \<open>i\<close> is an \<open>int\<close> of 32 bits; it is converted to
  \<open>size_t\<close> for the comparison with \<open>len\<close> and added as a signed offset to \<open>buf\<close>. The loop
  need not end for every \<open>len\<close>, so the function is partial.
  \<^verbatim>\<open>
  for (i = 0; i < len; i += sizeof (uint64_t))
      *(uint64_t *)(buf + i) = spl_rand_next(xp);
  \<close>
\<close>

partial_function (option) gen_loop ::
  "endian \<Rightarrow> u64 \<Rightarrow> 32 word \<Rightarrow> rstate \<Rightarrow> mem \<Rightarrow> (rstate \<times> mem) option" where
  "gen_loop e len i xp buf =
     (if scast i < len then
        gen_loop e len (i + 8) (snd (spl_rand_next xp))
          (store64 e buf (sint i) (fst (spl_rand_next xp)))
      else Some (xp, buf))"

declare gen_loop.simps [code]

text \<open>
  \<open>copy_to_user(to, from, n)\<close> belongs to the kernel. By its contract it copies a prefix of
  the \<open>n\<close> bytes, possibly a proper one, and returns the number of bytes it did not copy.
  The number \<open>d\<close> of bytes that it is able to copy in this call is an input.
\<close>

definition copy_to_user :: "u64 \<Rightarrow> mem \<Rightarrow> int \<Rightarrow> mem \<Rightarrow> int \<Rightarrow> u64 \<Rightarrow> u64 \<times> mem" where
  "copy_to_user d to_mem to_off from_mem from_off n =
     (let d = min d n
      in (n - d,
          (\<lambda>a. if to_off \<le> a \<and> a < to_off + uint d
               then from_mem (from_off + (a - to_off)) else to_mem a)))"

text \<open>
  The copying loop. \<open>deliver k\<close> is the number of bytes that the \<open>k\<close>-th call of
  \<open>copy_to_user\<close> is able to copy. Besides the user memory, the loop state records the calls
  made, each as the offset added to both pointers and the length requested.
  \<^verbatim>\<open>
  while (left != 0) {
      left = copy_to_user(buffer + copied, buf + copied, len);
      copied = len - left;
  }
  \<close>
\<close>

partial_function (option) copy_loop ::
  "(nat \<Rightarrow> u64) \<Rightarrow> mem \<Rightarrow> u64 \<Rightarrow> nat \<Rightarrow> u64 \<Rightarrow> u64 \<Rightarrow> mem \<Rightarrow> (int \<times> u64) list
     \<Rightarrow> (mem \<times> (int \<times> u64) list) option" where
  "copy_loop deliver buf len k left copied buffer calls =
     (if left \<noteq> 0 then
        copy_loop deliver buf len (Suc k)
          (fst (copy_to_user (deliver k) buffer (uint copied) buf (uint copied) len))
          (len - fst (copy_to_user (deliver k) buffer (uint copied) buf (uint copied) len))
          (snd (copy_to_user (deliver k) buffer (uint copied) buf (uint copied) len))
          (calls @ [(uint copied, len)])
      else Some (buffer, calls))"

declare copy_loop.simps [code]

text \<open>
  The result of a call that returns: the returned value (an error, or \<open>len\<close> as \<open>ssize_t\<close>),
  the state of the current CPU, the user memory, and the calls of \<open>copy_to_user\<close>.
\<close>

record poc_result =
  ret :: "errno + int"
  percpu_state :: rstate
  user_mem :: mem
  copy_calls :: "(int \<times> u64) list"

text \<open>
  \<open>access_ok\<close> is the result of \<open>access_ok(buffer, len)\<close>; \<open>vmalloc\<close> maps the size requested
  to \<open>None\<close> for a null pointer or to the memory found at the address returned. A call that
  does not return is \<open>None\<close>.
\<close>

definition poc_read ::
  "endian \<Rightarrow> bool \<Rightarrow> (u64 \<Rightarrow> mem option) \<Rightarrow> (nat \<Rightarrow> u64) \<Rightarrow> rstate \<Rightarrow> mem \<Rightarrow> u64
     \<Rightarrow> poc_result option" where
  "poc_read e access_ok vmalloc deliver xp buffer len =
     (if \<not> access_ok then
        Some \<lparr>ret = Inl EFAULT, percpu_state = xp, user_mem = buffer, copy_calls = []\<rparr>
      else case vmalloc (P2ROUNDUP len 8) of
        None \<Rightarrow>
          Some \<lparr>ret = Inl ENOMEM, percpu_state = xp, user_mem = buffer, copy_calls = []\<rparr>
      | Some buf \<Rightarrow>
          (case gen_loop e len 0 xp buf of
             None \<Rightarrow> None
           | Some (xp', buf') \<Rightarrow>
               (case copy_loop deliver buf' len 0 len 0 buffer [] of
                  None \<Rightarrow> None
                | Some (buffer', calls) \<Rightarrow>
                    Some \<lparr>ret = Inr (sint len), percpu_state = xp', user_mem = buffer',
                          copy_calls = calls\<rparr>)))"

subsection \<open>Outputs, byte sequences and inputs used in the statements\<close>

text \<open>The output of the \<open>w\<close>-th of successive calls of \<open>spl_rand_next\<close>, counted from 0.\<close>

definition out_word :: "rstate \<Rightarrow> nat \<Rightarrow> u64" where
  "out_word s w = fst (spl_rand_next ((next_state ^^ w) s))"

text \<open>
  The first \<open>n\<close> bytes of a buffer; the bytes that the generating loop of \<open>poc_read\<close> leaves
  in the first \<open>len\<close> bytes of the scratch buffer; and the bytes that
  \<open>random_get_pseudo_bytes\<close> leaves in a destination of \<open>len\<close> bytes.
\<close>

definition bytes_of :: "mem \<Rightarrow> nat \<Rightarrow> u8 list" where
  "bytes_of m n = map (\<lambda>j. m (int j)) [0..<n]"

definition scratch_bytes :: "endian \<Rightarrow> rstate \<Rightarrow> mem \<Rightarrow> u64 \<Rightarrow> u8 list option" where
  "scratch_bytes e xp buf len =
     (case gen_loop e len 0 xp buf of
        None \<Rightarrow> None
      | Some r \<Rightarrow> Some (bytes_of (snd r) (unat len)))"

definition fill_bytes :: "endian \<Rightarrow> rstate \<Rightarrow> mem \<Rightarrow> u64 \<Rightarrow> u8 list" where
  "fill_bytes e xp ptr len = bytes_of (snd (snd (random_get_pseudo_bytes e xp ptr len))) (unat len)"

text \<open>
  A memory of zero bytes, and two behaviours of \<open>copy_to_user\<close>: one that copies a single
  byte in every call, and one that copies 8 bytes in the first call and up to 16 bytes in
  every later call.
\<close>

definition blank :: mem where
  "blank = (\<lambda>a. 0)"

fun one_byte :: "nat \<Rightarrow> u64" where
  "one_byte k = 1"

fun short_once :: "nat \<Rightarrow> u64" where
  "short_once 0 = 8"
| "short_once (Suc k) = 16"

text \<open>
  Closed forms of the memory after the loops, used in the proofs. \<open>fill_mem\<close>: the bytes
  \<open>p, ..., p + n - 1\<close> after \<open>fill_loop\<close> has run for the length \<open>n\<close>. \<open>gen_mem\<close>: the bytes
  \<open>8k, ..., 8(k + n) - 1\<close> after \<open>n\<close> rounds of the generating loop that started at \<open>i = 8k\<close>.
\<close>

definition fill_mem :: "endian \<Rightarrow> nat \<Rightarrow> rstate \<Rightarrow> mem \<Rightarrow> int \<Rightarrow> mem" where
  "fill_mem e n s m p =
     (\<lambda>a. if p \<le> a \<and> a < p + int n
          then union_byte e (out_word s (nat (a - p) div 8))
                 (min 8 (n - 8 * (nat (a - p) div 8)) - 1 - nat (a - p) mod 8)
          else m a)"

definition gen_mem :: "endian \<Rightarrow> nat \<Rightarrow> nat \<Rightarrow> rstate \<Rightarrow> mem \<Rightarrow> mem" where
  "gen_mem e k n s m =
     (\<lambda>a. if 8 * int k \<le> a \<and> a < 8 * int (k + n)
          then union_byte e (out_word s (nat a div 8 - k)) (nat a mod 8)
          else m a)"

subsection \<open>Polynomials in the transition\<close>

text \<open>
  The definitions of this subsection are not taken from the program: they are the algebra
  in which the jump is compared with \<open>2^64\<close> transitions. The states form a vector space
  over the field of two elements, with \<open>sxor\<close> as the addition, and \<open>next_state\<close> is a linear
  map on it. A polynomial over that field is a list of coefficients, the constant one
  first, and \<open>evalp p s\<close> applies the polynomial \<open>p\<close>, taken in the map \<open>next_state\<close>, to \<open>s\<close>.
  \<open>jump_poly\<close> is the polynomial whose coefficients are the bits of \<open>JUMP\<close>, tested as the
  code tests them.
\<close>

definition sxor :: "rstate \<Rightarrow> rstate \<Rightarrow> rstate" where
  "sxor s t = (fst s XOR fst t, snd s XOR snd t)"

fun evalp :: "bool list \<Rightarrow> rstate \<Rightarrow> rstate" where
  "evalp [] s = (0, 0)"
| "evalp (b # p) s = (if b then sxor s (evalp p (next_state s)) else evalp p (next_state s))"

definition jump_poly :: "bool list" where
  "jump_poly = concat (map (\<lambda>j. map (\<lambda>b. j AND push_bit b 1 \<noteq> 0) [0..<64]) JUMP)"

text \<open>
  Bit lists. \<open>bits w\<close> lists the bits of a word from the least significant one, \<open>bnext\<close>
  is \<open>next_state\<close> on bit lists, and \<open>bacc p s acc\<close> adds \<open>evalp p s\<close> to \<open>acc\<close> the way the loop
  of \<open>spl_rand_jump\<close> does.
\<close>

fun bx :: "bool \<Rightarrow> bool \<Rightarrow> bool" where
  "bx False b = b"
| "bx True False = True"
| "bx True True = False"

definition bits :: "u64 \<Rightarrow> bool list" where
  "bits w = map (bit w) [0..<64]"

definition bt :: "bool list \<Rightarrow> bool list" where
  "bt a = map (\<lambda>k. if k < 23 then a ! k else bx (a ! k) (a ! (k - 23))) [0..<64]"

definition bn1 :: "bool list \<Rightarrow> bool list \<Rightarrow> bool list" where
  "bn1 t b = map (\<lambda>k. bx (bx (t ! k) (b ! k))
                  (bx (k + 18 < 64 \<and> t ! (k + 18)) (k + 5 < 64 \<and> b ! (k + 5)))) [0..<64]"

definition x64 :: "bool list \<Rightarrow> bool list \<Rightarrow> bool list" where
  "x64 a b = map (\<lambda>k. bx (a ! k) (b ! k)) [0..<64]"

definition bnext :: "bool list \<times> bool list \<Rightarrow> bool list \<times> bool list" where
  "bnext s = (snd s, bn1 (bt (fst s)) (snd s))"

fun bacc ::
  "bool list \<Rightarrow> bool list \<times> bool list \<Rightarrow> bool list \<times> bool list \<Rightarrow> bool list \<times> bool list" where
  "bacc [] s acc = acc"
| "bacc (True # p) s acc = bacc p (bnext s) (x64 (fst acc) (fst s), x64 (snd acc) (snd s))"
| "bacc (False # p) s acc = bacc p (bnext s) acc"

definition bits2 :: "rstate \<Rightarrow> bool list \<times> bool list" where
  "bits2 s = (bits (fst s), bits (snd s))"

text \<open>
  \<open>cpoly\<close> is the polynomial \<open>0x12844c5d42caf7db0024f06fae9e61daf\<close> of degree 128; it is
  shown below to map every state to zero. \<open>check_units n\<close> tests that \<open>cpoly\<close> maps the unit
  vectors \<open>2^j\<close> of both state words to zero, for \<open>j < n\<close>.
\<close>

definition cpoly :: "bool list" where
  "cpoly =
    [True, True, True, True, False, True, False, True,
     True, False, True, True, True, False, False, False,
     False, True, True, False, False, True, True, True,
     True, False, False, True, False, True, True, True,
     False, True, False, True, True, True, True, True,
     False, True, True, False, False, False, False, False,
     True, True, True, True, False, False, True, False,
     False, True, False, False, False, False, False, False,
     False, False, False, False, True, True, False, True,
     True, False, True, True, True, True, True, False,
     True, True, True, True, False, True, False, True,
     False, False, True, True, False, True, False, False,
     False, False, True, False, True, False, True, True,
     True, False, True, False, False, False, True, True,
     False, False, True, False, False, False, True, False,
     False, False, False, True, False, True, False, False,
     True]"

definition zeros :: "bool list" where
  "zeros = replicate 64 False"

definition bunit :: "nat \<Rightarrow> bool list" where
  "bunit j = map (\<lambda>k. k = j) [0..<64]"

fun check_units :: "nat \<Rightarrow> bool" where
  "check_units 0 = True"
| "check_units (Suc j) =
     (bacc cpoly (bunit j, zeros) (zeros, zeros) = (zeros, zeros)
      \<and> bacc cpoly (zeros, bunit j) (zeros, zeros) = (zeros, zeros)
      \<and> check_units j)"

text \<open>
  Arithmetic modulo \<open>cpoly\<close> on polynomials of 128 coefficients: \<open>pstep b r\<close> is
  \<open>b + x * r\<close>, \<open>pmod\<close> the remainder, \<open>psq\<close> the square (over the field of two elements the
  square of a polynomial spreads its coefficients), and \<open>xpoly\<close> the polynomial \<open>x\<close>.
\<close>

definition pxor :: "bool list \<Rightarrow> bool list \<Rightarrow> bool list" where
  "pxor p q = map (\<lambda>(a, b). bx a b) (zip p q)"

definition pstep :: "bool \<Rightarrow> bool list \<Rightarrow> bool list" where
  "pstep b r = (let q = b # r in if last q then butlast (pxor q cpoly) else butlast q)"

fun pmod :: "bool list \<Rightarrow> bool list" where
  "pmod [] = replicate 128 False"
| "pmod (b # p) = pstep b (pmod p)"

fun psq :: "bool list \<Rightarrow> bool list" where
  "psq [] = []"
| "psq (b # p) = b # False # psq p"

definition sqmod :: "bool list \<Rightarrow> bool list" where
  "sqmod r = pmod (psq r)"

definition xpoly :: "bool list" where
  "xpoly = False # True # replicate 126 False"

section \<open>Properties\<close>

text \<open>
  Claim C5. For every state \<open>(a, b)\<close>, one call of \<open>spl_rand_next\<close> leaves the state
  \<open>(b, t XOR b XOR (t >> 18) XOR (b >> 5))\<close> with \<open>t = a XOR (a << 23)\<close>, and returns the
  new second word plus \<open>b\<close>, the sum taken modulo \<open>2^64\<close>.
\<close>

theorem spl_rand_next_step:
  fixes a b :: u64
  defines "t \<equiv> a XOR push_bit 23 a"
  defines "n1 \<equiv> t XOR b XOR drop_bit 18 t XOR drop_bit 5 b"
  shows "spl_rand_next (a, b) = (n1 + b, (b, n1))
       \<and> unat (fst (spl_rand_next (a, b))) = (unat n1 + unat b) mod 2 ^ 64"
  by (simp add: spl_rand_next_def Let_def t_def n1_def unat_word_ariths)

theorem spl_rand_next_step_witness:
  "spl_rand_next (1, 0) = (0x800021, (0, 0x800021))"
  using spl_rand_next_step[of 1 0] by simp

subsection \<open>The all-zero state\<close>

lemma xor_zero_eq:
  fixes a b :: "'a::len word"
  assumes "a XOR b = 0"
  shows "a = b"
proof -
  have "(a XOR b) XOR b = b" using assms by simp
  then show ?thesis by (simp add: xor.assoc)
qed

text \<open>\<open>a \<mapsto> a XOR (a << k)\<close> has trivial kernel: the lowest set bit of \<open>a\<close> survives.\<close>

lemma xor_push_bit_zero:
  fixes a :: "'a::len word"
  assumes "0 < k" and "a XOR push_bit k a = 0"
  shows "a = 0"
proof -
  have eq: "a = push_bit k a" using assms(2) by (rule xor_zero_eq)
  have "\<not> bit a n" for n
  proof (induction n rule: less_induct)
    case (less n)
    show ?case
    proof
      assume "bit a n"
      then have "bit (push_bit k a) n" using eq by simp
      then have "k \<le> n \<and> bit a (n - k)" by (simp add: bit_push_bit_iff)
      then show False using less[of "n - k"] assms(1) by auto
    qed
  qed
  then show ?thesis by (simp add: bit_eq_iff)
qed

text \<open>\<open>a \<mapsto> a XOR (a >> k)\<close> has trivial kernel: the highest set bit of \<open>a\<close> survives.\<close>

lemma xor_drop_bit_zero:
  fixes a :: "'a::len word"
  assumes "0 < k" and "a XOR drop_bit k a = 0"
  shows "a = 0"
proof -
  have eq: "a = drop_bit k a" using assms(2) by (rule xor_zero_eq)
  have step: "bit a n = bit a (n + k)" for n
  proof -
    have "bit a n = bit (drop_bit k a) n" using eq by simp
    then show ?thesis by (simp add: bit_drop_bit_eq add.commute)
  qed
  have iter: "bit a n = bit a (n + j * k)" for n j
  proof (induction j)
    case 0
    show ?case by simp
  next
    case (Suc j)
    then show ?case using step[of "n + j * k"] by (simp add: algebra_simps)
  qed
  have "\<not> bit a n" for n
  proof
    assume "bit a n"
    then have "bit a (n + LENGTH('a) * k)" using iter[of n "LENGTH('a)"] by simp
    then have "n + LENGTH('a) * k < LENGTH('a)" by (rule bit_imp_le_length)
    moreover have "LENGTH('a) \<le> n + LENGTH('a) * k"
      using assms(1) by (simp add: trans_le_add2)
    ultimately show False by simp
  qed
  then show ?thesis by (simp add: bit_eq_iff)
qed

lemma next_state_eq_zero:
  assumes "next_state s = (0, 0)"
  shows "s = (0, 0)"
proof -
  obtain a b where s: "s = (a, b)" by (cases s)
  define t where "t = a XOR push_bit 23 a"
  from assms have "(b, t XOR b XOR drop_bit 18 t XOR drop_bit 5 b) = (0, 0)"
    unfolding next_state_def spl_rand_next_def Let_def s t_def by (simp only: fst_conv snd_conv)
  then have b: "b = 0" and n1: "t XOR b XOR drop_bit 18 t XOR drop_bit 5 b = 0"
    by blast+
  from n1 have "t XOR drop_bit 18 t = 0" unfolding b by simp
  then have "t = 0" by (rule xor_drop_bit_zero[rotated]) simp
  then have "a XOR push_bit 23 a = 0" by (simp add: t_def)
  then have "a = 0" by (rule xor_push_bit_zero[rotated]) simp
  with b s show ?thesis by simp
qed

lemma funpow_next_state_nonzero:
  "s \<noteq> (0, 0) \<Longrightarrow> (next_state ^^ n) s \<noteq> (0, 0)"
proof (induction n)
  case 0
  then show ?case by simp
next
  case (Suc n)
  then show ?case using next_state_eq_zero[of "(next_state ^^ n) s"] by auto
qed

text \<open>
  Claim C8. From a state that is not all-zero, one call of \<open>spl_rand_next\<close> leaves a state
  that is not all-zero, and so does any number of repeated calls.
\<close>

theorem next_state_never_zero:
  assumes "s \<noteq> (0, 0)"
  shows "snd (spl_rand_next s) \<noteq> (0, 0) \<and> (\<forall>n. (next_state ^^ n) s \<noteq> (0, 0))"
  using assms next_state_eq_zero[of s] funpow_next_state_nonzero[of s]
  by (auto simp: next_state_def)

theorem next_state_never_zero_witness:
  "((1, 0) :: rstate) \<noteq> (0, 0) \<and> snd (spl_rand_next (1, 0)) \<noteq> (0, 0)
    \<and> (next_state ^^ 5) (1, 0) \<noteq> (0, 0)"
  using next_state_never_zero[of "(1, 0)"] by simp

subsection \<open>Seeding\<close>

lemma improbable_seed_words:
  "load64 LittleEndian (take 8 improbable_seed) = 0x6261626F72706D69"
  "load64 LittleEndian (drop 8 improbable_seed) = 0x6465657320656C"
  "load64 BigEndian (take 8 improbable_seed) = 0x696D70726F626162"
  "load64 BigEndian (drop 8 improbable_seed) = 0x6C65207365656400"
  by (simp_all add: load64_def improbable_seed_def)

text \<open>
  Claim C7. When \<open>get_random_bytes\<close> yields the all-zero 128-bit value, the seed becomes the
  value of \<open>jiffies\<close> paired with its bitwise complement if \<open>jiffies\<close> is not zero, and the
  fixed literal otherwise; in both cases the seed is not all-zero.
\<close>

theorem seed_fallback_zero_entropy:
  "seed_fallback e (0, 0) jiffies =
     (if jiffies \<noteq> 0 then (jiffies, NOT jiffies)
      else case e of
        LittleEndian \<Rightarrow> (0x6261626F72706D69, 0x6465657320656C)
      | BigEndian \<Rightarrow> (0x696D70726F626162, 0x6C65207365656400))
   \<and> seed_fallback e (0, 0) jiffies \<noteq> (0, 0)"
  by (cases e) (simp_all add: seed_fallback_def improbable_seed_words not_eq_complement)

theorem seed_fallback_zero_entropy_witness:
  "seed_fallback LittleEndian (0, 0) 5 = (5, 0xFFFFFFFFFFFFFFFA)
   \<and> seed_fallback LittleEndian (0, 0) 0 = (0x6261626F72706D69, 0x6465657320656C)"
  using seed_fallback_zero_entropy[of LittleEndian 5] seed_fallback_zero_entropy[of LittleEndian 0]
  by simp

lemma seed_cpus_visits:
  assumes "distinct cpus"
  shows "\<exists>percpu'. seed_cpus cpus s percpu = ((spl_rand_jump ^^ length cpus) s, percpu')
          \<and> (\<forall>k<length cpus. percpu' (cpus ! k) = (spl_rand_jump ^^ Suc k) s)
          \<and> (\<forall>i. i \<notin> set cpus \<longrightarrow> percpu' i = percpu i)"
  using assms
proof (induction cpus rule: rev_induct)
  case Nil
  show ?case by (simp add: seed_cpus_def)
next
  case (snoc c cpus)
  then obtain percpu' where
    f: "seed_cpus cpus s percpu = ((spl_rand_jump ^^ length cpus) s, percpu')"
    and v: "\<forall>k<length cpus. percpu' (cpus ! k) = (spl_rand_jump ^^ Suc k) s"
    and u: "\<forall>i. i \<notin> set cpus \<longrightarrow> percpu' i = percpu i"
    by auto
  have c: "c \<notin> set cpus" using snoc.prems by simp
  let ?r = "percpu'(c := (spl_rand_jump ^^ Suc (length cpus)) s)"
  have "seed_cpus (cpus @ [c]) s percpu = ((spl_rand_jump ^^ length (cpus @ [c])) s, ?r)"
    using f by (simp add: seed_cpus_def Let_def)
  moreover have "\<forall>k<length (cpus @ [c]). ?r ((cpus @ [c]) ! k) = (spl_rand_jump ^^ Suc k) s"
  proof (intro allI impI)
    fix k assume "k < length (cpus @ [c])"
    then consider "k < length cpus" | "k = length cpus" by fastforce
    then show "?r ((cpus @ [c]) ! k) = (spl_rand_jump ^^ Suc k) s"
    proof cases
      case 1
      then have "cpus ! k \<noteq> c" using c by (metis nth_mem)
      then show ?thesis using 1 v by (simp add: nth_append)
    next
      case 2
      then show ?thesis by simp
    qed
  qed
  moreover have "\<forall>i. i \<notin> set (cpus @ [c]) \<longrightarrow> ?r i = percpu i" using u by simp
  ultimately show ?case by blast
qed

text \<open>
  Claim C6. After \<open>spl_random_init\<close> has seeded the CPUs \<open>0, ..., N - 1\<close>, the state of CPU
  \<open>i\<close> is \<open>spl_rand_jump\<close> applied \<open>i + 1\<close> times to the seed, for every \<open>i < N\<close>: one
  running state is advanced from CPU to CPU.
\<close>

theorem spl_random_init_seeds:
  "\<exists>percpu'. spl_random_init e (Some percpu) [0..<N] entropy jiffies = Inr percpu'
     \<and> (\<forall>i<N. percpu' i = (spl_rand_jump ^^ (i + 1)) (seed_fallback e entropy jiffies))"
  using seed_cpus_visits[of "[0..<N]" "seed_fallback e entropy jiffies" percpu]
  by (auto simp: spl_random_init_def)

theorem spl_random_init_seeds_witness:
  "\<exists>percpu'. spl_random_init LittleEndian (Some (\<lambda>i. (0, 0))) [0..<2] (1, 0) 5 = Inr percpu'
     \<and> percpu' 0 = spl_rand_jump (1, 0)
     \<and> percpu' 1 = spl_rand_jump (spl_rand_jump (1, 0))"
  using spl_random_init_seeds[of LittleEndian "\<lambda>i. (0, 0)" 2 "(1, 0)" 5]
  by (auto simp: seed_fallback_def)

subsection \<open>random\_get\_pseudo\_bytes\<close>

lemma fill_loop_0: "fill_loop e 0 s mp = (s, mp)"
  by (subst fill_loop.simps) simp

text \<open>
  Claim C10. \<open>random_get_pseudo_bytes\<close> returns 0 on every call; a call with length 0
  leaves the destination and the state of the current CPU as they were.
\<close>

theorem random_get_pseudo_bytes_returns_zero:
  "fst (random_get_pseudo_bytes e xp ptr len) = 0
   \<and> random_get_pseudo_bytes e xp ptr 0 = (0, xp, ptr)"
  by (simp add: random_get_pseudo_bytes_def Let_def fill_loop_0)

theorem random_get_pseudo_bytes_returns_zero_witness:
  "random_get_pseudo_bytes LittleEndian (1, 0) blank 0 = (0, (1, 0), blank)"
  using random_get_pseudo_bytes_returns_zero[of LittleEndian "(1, 0)" blank] by simp

lemma emit_mem:
  "emit e w i (m, p) =
     ((\<lambda>a. if p \<le> a \<and> a < p + int i then union_byte e w (i - 1 - nat (a - p)) else m a),
      p + int i)"
proof (induction i arbitrary: m p)
  case 0
  show ?case by (auto simp: fun_eq_iff)
next
  case (Suc i)
  have "nat (a - p) = Suc (nat (a - (p + 1)))" if "p < a" for a
    using that by linarith
  then show ?case
    by (auto simp: Suc.IH fun_eq_iff Suc_diff_Suc)
qed

lemma out_word_0: "out_word s 0 = fst (spl_rand_next s)"
  by (simp add: out_word_def)

lemma out_word_Suc: "out_word (snd (spl_rand_next s)) w = out_word s (Suc w)"
  by (simp add: out_word_def funpow_swap1 next_state_def)

lemma fill_loop_mem:
  "fill_loop e len s (m, p) =
     ((next_state ^^ ((unat len + 7) div 8)) s, fill_mem e (unat len) s m p, p + uint len)"
proof (induction "unat len" arbitrary: len s m p rule: less_induct)
  case less
  show ?case
  proof (cases "len = 0")
    case True
    then show ?thesis by (auto simp: fill_mem_def fun_eq_iff fill_loop_0)
  next
    case False
    define i where "i = min len 8"
    define n where "n = unat len"
    have le: "i \<le> len" by (simp add: i_def)
    have ui: "unat i = min n 8" by (simp add: i_def n_def min_def word_le_nat_alt)
    have "i \<noteq> 0" using False by (auto simp: i_def min_def)
    then have ipos: "0 < unat i" by (simp add: unat_gt_0)
    have usub: "unat (len - i) = n - min n 8" using le ui by (simp add: unat_sub n_def)
    have npos: "0 < n" using False by (simp add: n_def unat_gt_0)
    have lt: "unat (len - i) < unat len" using usub npos by (simp add: n_def)
    obtain m1 where e1: "emit e (fst (spl_rand_next s)) (unat i) (m, p) = (m1, p + int (unat i))"
      and m1: "m1 = (\<lambda>a. if p \<le> a \<and> a < p + int (unat i) then union_byte e (fst (spl_rand_next s)) (unat i - 1 - nat (a - p)) else m a)"
      by (simp add: emit_mem)
    have step: "fill_loop e len s (m, p) = fill_loop e (len - i) (snd (spl_rand_next s)) (m1, p + int (unat i))"
      using False by (subst fill_loop.simps) (simp add: Let_def i_def[symmetric] e1)
    have st: "(next_state ^^ ((unat (len - i) + 7) div 8)) (snd (spl_rand_next s)) = (next_state ^^ ((n + 7) div 8)) s"
    proof -
      have "Suc ((n - min n 8 + 7) div 8) = (n + 7) div 8" using npos by (auto simp: min_def)
      then show ?thesis
        unfolding usub by (metis funpow_Suc_right comp_apply next_state_def)
    qed
    have pp: "p + int (unat i) + uint (len - i) = p + uint len"
    proof -
      have "uint (len - i) = int (n - min n 8)" "uint len = int n"
        unfolding uint_nat usub n_def by (rule refl)+
      then show ?thesis unfolding ui by simp
    qed
    have mm: "fill_mem e (unat (len - i)) (snd (spl_rand_next s)) m1 (p + int (unat i)) = fill_mem e n s m p"
    proof (rule ext)
      fix a :: int
      consider "a < p \<or> p + int n \<le> a" | "p \<le> a" "a < p + int (min n 8)"
        | "p + int (min n 8) \<le> a" "a < p + int n"
        by linarith
      then show "fill_mem e (unat (len - i)) (snd (spl_rand_next s)) m1 (p + int (unat i)) a
                 = fill_mem e n s m p a"
      proof cases
        case 1
        then show ?thesis unfolding usub ui by (auto simp: fill_mem_def m1 ui)
      next
        case 2
        then have j: "nat (a - p) < 8" "nat (a - p) < n" by auto
        then show ?thesis
          using 2 unfolding usub ui by (auto simp: fill_mem_def m1 ui out_word_0 min_def)
      next
        case 3
        then have n8: "8 < n" "min n 8 = 8" by auto
        define j where "j = nat (a - p)"
        have j: "8 \<le> j" "j < n" "nat (a - (p + 8)) = j - 8" using 3 n8 by (auto simp: j_def)
        obtain j' where j': "j = j' + 8" using j(1) by (metis le_add_diff_inverse2)
        have d: "Suc ((j - 8) div 8) = j div 8" and md: "(j - 8) mod 8 = j mod 8"
          by (simp_all add: j')
        have k: "8 + 8 * ((j - 8) div 8) = 8 * (j div 8)"
          unfolding d[symmetric] by simp
        show ?thesis
          using 3 n8 unfolding usub ui
          by (simp add: fill_mem_def m1 ui out_word_Suc j j_def[symmetric] d md k)
      qed
    qed
    show ?thesis
      unfolding step less[OF lt] st pp mm by (simp add: n_def)
  qed
qed

lemma random_get_pseudo_bytes_eq:
  "random_get_pseudo_bytes e xp ptr len =
     (0, (next_state ^^ ((unat len + 7) div 8)) xp, fill_mem e (unat len) xp ptr 0)"
  by (simp add: random_get_pseudo_bytes_def Let_def fill_loop_mem)

lemma first_output: "spl_rand_next (1, 0) = (0x800021, (0, 0x800021))"
  by (simp add: spl_rand_next_def)

lemma second_output: "spl_rand_next (0, 0x800021) = (0x1040041, (0x800021, 0x840020))"
  by (simp add: spl_rand_next_def)

text \<open>
  Claim C3, as amended. For every state and every length, \<open>random_get_pseudo_bytes\<close> writes
  the offsets \<open>0, ..., len - 1\<close> of the destination and no other byte. The offset \<open>8w + r\<close>
  receives \<open>entropy.byte[k - 1 - r]\<close> of the \<open>w\<close>-th output, where \<open>k\<close> is 8 or, for the last
  output, the number of bytes still wanted. On a little-endian host this is the byte
  \<open>k - 1 - r\<close> counted from the least significant one: every full output is written most
  significant byte first, and the last output contributes its \<open>k\<close> least significant
  bytes. The order depends on the byte order of the host.
\<close>

theorem random_get_pseudo_bytes_writes:
  "snd (snd (random_get_pseudo_bytes e xp ptr len)) a =
     (if 0 \<le> a \<and> a < uint len
      then union_byte e (out_word xp (nat a div 8))
             (min 8 (unat len - 8 * (nat a div 8)) - 1 - nat a mod 8)
      else ptr a)
   \<and> snd (snd (random_get_pseudo_bytes LittleEndian xp ptr len)) a =
     (if 0 \<le> a \<and> a < uint len
      then ucast (drop_bit (8 * (min 8 (unat len - 8 * (nat a div 8)) - 1 - nat a mod 8))
                   (out_word xp (nat a div 8)))
      else ptr a)"
  by (simp add: random_get_pseudo_bytes_eq fill_mem_def union_byte_def)

theorem random_get_pseudo_bytes_writes_witness:
  "map (snd (snd (random_get_pseudo_bytes LittleEndian (1, 0) blank 10))) [0, 7, 8, 9, 10]
     = [0x00, 0x21, 0x00, 0x41, 0x00]"
  using random_get_pseudo_bytes_writes[of LittleEndian "(1, 0)" blank 10 0]
    random_get_pseudo_bytes_writes[of LittleEndian "(1, 0)" blank 10 7]
    random_get_pseudo_bytes_writes[of LittleEndian "(1, 0)" blank 10 8]
    random_get_pseudo_bytes_writes[of LittleEndian "(1, 0)" blank 10 9]
    random_get_pseudo_bytes_writes[of LittleEndian "(1, 0)" blank 10 10]
  by (simp add: out_word_def first_output second_output next_state_def blank_def union_byte_def)

text \<open>
  On a big-endian host \<open>entropy.byte[7]\<close> is the least significant byte, and it is written
  first: for the state \<open>(1, 0)\<close> the first output is \<open>0x800021\<close>, whose most significant
  byte is 0, and the first byte written is \<open>0x21\<close>.
\<close>

theorem random_get_pseudo_bytes_big_endian_counterexample:
  "fst (spl_rand_next (1, 0)) = 0x0000000000800021
   \<and> snd (snd (random_get_pseudo_bytes BigEndian (1, 0) blank 8)) 0 = 0x21
   \<and> snd (snd (random_get_pseudo_bytes BigEndian (1, 0) blank 8)) 0
       \<noteq> ucast (drop_bit 56 (fst (spl_rand_next (1, 0))))"
  by (simp add: random_get_pseudo_bytes_eq fill_mem_def out_word_def first_output union_byte_def)

subsection \<open>poc\_read\<close>

lemma sint_of_nat_small:
  assumes "j < 2 ^ 31"
  shows "sint (of_nat j :: 32 word) = int j"
proof -
  have "int j < 2 ^ 31" using assms by (metis of_nat_less_numeral_power_cancel_iff)
  then have "signed_take_bit 31 (int j) = int j"
    by (intro signed_take_bit_int_eq_self) auto
  then show ?thesis by (simp add: signed_of_nat)
qed

lemma scast_of_nat_small:
  assumes "j < 2 ^ 31"
  shows "(scast (of_nat j :: 32 word) :: 64 word) = of_nat j"
  by (simp add: scast_eq sint_of_nat_small[OF assms])

lemma of_nat_less_word:
  assumes "j < 2 ^ 31"
  shows "((of_nat j :: 64 word) < len) = (j < unat len)"
proof -
  have "j < 2 ^ 64" using assms by (rule less_trans) simp
  then have "unat (of_nat j :: 64 word) = j" by (simp add: unat_of_nat)
  then show ?thesis by (simp add: word_less_nat_alt)
qed

lemma gen_loop_run:
  assumes "8 * (k + n) < 2 ^ 31" and "unat len \<le> 8 * (k + n)" and "8 * (k + n) < unat len + 8"
  shows "gen_loop e len (of_nat (8 * k)) xp buf = Some ((next_state ^^ n) xp, gen_mem e k n xp buf)"
  using assms
proof (induction n arbitrary: k xp buf)
  case 0
  then have small: "8 * k < 2 ^ 31" by simp
  have "\<not> (scast (of_nat (8 * k) :: 32 word) :: 64 word) < len"
    using 0 by (simp only: scast_of_nat_small[OF small] of_nat_less_word[OF small]) simp
  then show ?case
    by (subst gen_loop.simps) (auto simp: gen_mem_def fun_eq_iff)
next
  case (Suc n)
  then have small: "8 * k < 2 ^ 31" by simp
  have cond: "(scast (of_nat (8 * k) :: 32 word) :: 64 word) < len"
    using Suc.prems by (simp only: scast_of_nat_small[OF small] of_nat_less_word[OF small]) simp
  have inc: "(of_nat (8 * k) :: 32 word) + 8 = of_nat (8 * Suc k)" by simp
  have ih: "gen_loop e len (of_nat (8 * Suc k)) xp' buf'
            = Some ((next_state ^^ n) xp', gen_mem e (Suc k) n xp' buf')" for xp' buf'
    using Suc.prems by (intro Suc.IH) simp_all
  have mm: "gen_mem e (Suc k) n (snd (spl_rand_next xp))
              (store64 e buf (int (8 * k)) (fst (spl_rand_next xp)))
            = gen_mem e k (Suc n) xp buf"
  proof (rule ext)
    fix a :: int
    consider "a < 8 * int k \<or> 8 * int (k + Suc n) \<le> a" | "8 * int k \<le> a" "a < 8 * int k + 8"
      | "8 * int (Suc k) \<le> a" "a < 8 * int (k + Suc n)"
      by (simp add: algebra_simps) linarith
    then show "gen_mem e (Suc k) n (snd (spl_rand_next xp))
              (store64 e buf (int (8 * k)) (fst (spl_rand_next xp))) a
            = gen_mem e k (Suc n) xp buf a"
    proof cases
      case 1
      then show ?thesis by (auto simp: gen_mem_def store64_def)
    next
      case 2
      define r where "r = nat (a - 8 * int k)"
      have r: "a = 8 * int k + int r" "r < 8" using 2 by (simp_all add: r_def)
      have na: "nat (8 * int k + int r) = 8 * k + r"
        by (simp add: nat_add_distrib nat_mult_distrib)
      show ?thesis
        using r by (simp add: gen_mem_def store64_def na out_word_0)
    next
      case 3
      then have "0 \<le> a" by simp
      then obtain j where j: "a = int j" by (metis zero_le_imp_eq_int)
      have jk: "8 * Suc k \<le> j" using 3 j by simp
      then have dk: "Suc k \<le> j div 8" by simp
      then have "Suc (j div 8 - Suc k) = j div 8 - k" by simp
      then show ?thesis
        using 3 by (simp add: gen_mem_def store64_def j out_word_Suc)
    qed
  qed
  show ?case
    by (subst gen_loop.simps)
       (simp only: cond if_True inc ih sint_of_nat_small[OF small] mm funpow_Suc_right comp_apply next_state_def)
qed

lemma gen_loop_eq:
  assumes "unat len \<le> 2 ^ 31 - 8"
  shows "gen_loop e len 0 xp buf =
           Some ((next_state ^^ ((unat len + 7) div 8)) xp,
                 gen_mem e 0 ((unat len + 7) div 8) xp buf)"
proof -
  have "8 * (0 + (unat len + 7) div 8) < 2 ^ 31" using assms by simp
  moreover have "unat len \<le> 8 * (0 + (unat len + 7) div 8)" by simp
  moreover have "8 * (0 + (unat len + 7) div 8) < unat len + 8" by simp
  ultimately show ?thesis using gen_loop_run[of 0 "(unat len + 7) div 8" len e xp buf] by simp
qed

lemma bytes_of_eqI:
  assumes "\<And>j. j < n \<Longrightarrow> m (int j) = f j"
  shows "bytes_of m n = map f [0..<n]"
  using assms by (simp add: bytes_of_def)

text \<open>
  Claim C2, as amended. For every length up to \<open>2^31 - 8\<close> (where the \<open>int\<close> counter cannot
  overflow), the generating loop of \<open>poc_read\<close> consumes the same outputs as
  \<open>random_get_pseudo_bytes\<close> and leaves the same state, but the byte sequences are not
  identical: within every group of 8 bytes, and within the shorter last group, the scratch
  buffer holds the bytes of \<open>random_get_pseudo_bytes\<close> in reverse order.
\<close>

theorem scratch_bytes_mirror_fill_bytes:
  assumes "unat len \<le> 2 ^ 31 - 8"
  shows "scratch_bytes e xp buf len =
           Some (map (\<lambda>j. fill_bytes e xp ptr len
                            ! (8 * (j div 8) + (min 8 (unat len - 8 * (j div 8)) - 1 - j mod 8)))
                   [0..<unat len])
         \<and> map_option fst (gen_loop e len 0 xp buf)
             = Some (fst (snd (random_get_pseudo_bytes e xp ptr len)))"
proof -
  define n where "n = unat len"
  have "bytes_of (gen_mem e 0 ((n + 7) div 8) xp buf) n
        = map (\<lambda>j. bytes_of (fill_mem e n xp ptr 0) n
                      ! (8 * (j div 8) + (min 8 (n - 8 * (j div 8)) - 1 - j mod 8))) [0..<n]"
  proof (rule bytes_of_eqI)
    fix j assume j: "j < n"
    define k where "k = min 8 (n - 8 * (j div 8))"
    define j' where "j' = 8 * (j div 8) + (k - 1 - j mod 8)"
    have r: "j mod 8 < k" using j unfolding k_def
      by (simp add: less_diff_conv add.commute)
    then have k8: "k - 1 - j mod 8 < 8" "0 < k" "k \<le> 8" by (auto simp: k_def)
    have d: "j' div 8 = j div 8" and m: "j' mod 8 = k - 1 - j mod 8"
      using k8 by (simp_all add: j'_def)
    have "8 * (j div 8) \<le> j" by simp
    then have "8 * (j div 8) \<le> n" using j by linarith
    moreover have "k \<le> n - 8 * (j div 8)" by (simp add: k_def)
    ultimately have "8 * (j div 8) + k \<le> n" by linarith
    then have lt: "j' < n" using r k8 by (simp add: j'_def)
    have "j < 8 * ((n + 7) div 8)" using j by simp
    then have g: "gen_mem e 0 ((n + 7) div 8) xp buf (int j)
              = union_byte e (out_word xp (j div 8)) (j mod 8)"
      by (simp add: gen_mem_def)
    have "bytes_of (fill_mem e n xp ptr 0) n ! j' = fill_mem e n xp ptr 0 (int j')"
      using lt by (simp add: bytes_of_def)
    also have "\<dots> = union_byte e (out_word xp (j div 8)) (k - 1 - (k - 1 - j mod 8))"
      using lt by (simp add: fill_mem_def d m k_def)
    also have "k - 1 - (k - 1 - j mod 8) = j mod 8" using r by simp
    finally show "gen_mem e 0 ((n + 7) div 8) xp buf (int j)
        = bytes_of (fill_mem e n xp ptr 0) n
             ! (8 * (j div 8) + (min 8 (n - 8 * (j div 8)) - 1 - j mod 8))"
      by (simp add: g j'_def k_def)
  qed
  then show ?thesis
    by (simp add: scratch_bytes_def fill_bytes_def gen_loop_eq[OF assms]
        random_get_pseudo_bytes_eq n_def)
qed

lemma upt_8: "[0..<8] = [0, 1, 2, 3, 4, 5, 6, 7]"
  by code_simp

lemma scratch_example:
  "scratch_bytes LittleEndian (1, 0) blank 8 = Some [0x21, 0, 0x80, 0, 0, 0, 0, 0]"
  by (simp add: scratch_bytes_def gen_loop_eq gen_mem_def bytes_of_def upt_8 out_word_def
      first_output union_byte_def)

lemma fill_example:
  "fill_bytes LittleEndian (1, 0) blank 8 = [0, 0, 0, 0, 0, 0x80, 0, 0x21]"
  by (simp add: fill_bytes_def random_get_pseudo_bytes_eq fill_mem_def bytes_of_def upt_8
      out_word_def first_output union_byte_def)

theorem scratch_bytes_mirror_fill_bytes_witness:
  "unat (8 :: u64) \<le> 2 ^ 31 - 8
   \<and> scratch_bytes LittleEndian (1, 0) blank 8 = Some [0x21, 0, 0x80, 0, 0, 0, 0, 0]
   \<and> map_option fst (gen_loop LittleEndian 8 0 (1, 0) blank) = Some (0, 0x800021)"
  using scratch_bytes_mirror_fill_bytes[of 8 LittleEndian "(1, 0)" blank blank]
  by (simp add: fill_example upt_8 random_get_pseudo_bytes_eq next_state_def first_output)

text \<open>
  For the state \<open>(1, 0)\<close> and the length 8 on a little-endian host the two byte sequences
  differ.
\<close>

theorem scratch_bytes_fill_bytes_counterexample:
  "scratch_bytes LittleEndian (1, 0) blank 8 = Some [0x21, 0, 0x80, 0, 0, 0, 0, 0]
   \<and> fill_bytes LittleEndian (1, 0) blank 8 = [0, 0, 0, 0, 0, 0x80, 0, 0x21]
   \<and> scratch_bytes LittleEndian (1, 0) blank 8 \<noteq> Some (fill_bytes LittleEndian (1, 0) blank 8)"
  by (simp add: scratch_example fill_example)

lemma copy_loop_one_byte_stuck:
  assumes "copy_loop deliver buf len k left copied buffer calls = Some y"
  shows "\<not> (deliver = one_byte \<and> 1 < len \<and> left = len - 1)"
proof (rule copy_loop.raw_induct[where
      P = "\<lambda>deliver buf (len :: u64) k (left :: u64) copied buffer calls y.
             \<not> (deliver = one_byte \<and> 1 < len \<and> left = len - 1)", OF _ assms])
  fix f :: "(nat \<Rightarrow> u64) \<Rightarrow> mem \<Rightarrow> u64 \<Rightarrow> nat \<Rightarrow> u64 \<Rightarrow> u64 \<Rightarrow> mem \<Rightarrow> (int \<times> u64) list
     \<Rightarrow> (mem \<times> (int \<times> u64) list) option"
  fix deliver :: "nat \<Rightarrow> u64" and buf buffer :: mem and len left copied :: u64 and k :: nat
    and calls :: "(int \<times> u64) list" and y :: "mem \<times> (int \<times> u64) list"
  assume IH: "\<And>deliver buf len k left copied buffer calls y.
       f deliver buf len k left copied buffer calls = Some y \<Longrightarrow>
       \<not> (deliver = one_byte \<and> 1 < len \<and> left = len - 1)"
    and step: "(if left \<noteq> 0 then
        f deliver buf len (Suc k)
          (fst (copy_to_user (deliver k) buffer (uint copied) buf (uint copied) len))
          (len - fst (copy_to_user (deliver k) buffer (uint copied) buf (uint copied) len))
          (snd (copy_to_user (deliver k) buffer (uint copied) buf (uint copied) len))
          (calls @ [(uint copied, len)])
      else Some (buffer, calls)) = Some y"
  show "\<not> (deliver = one_byte \<and> 1 < len \<and> left = len - 1)"
  proof
    assume a: "deliver = one_byte \<and> 1 < len \<and> left = len - 1"
    then have m: "min 1 len = 1" by (auto simp: min_def)
    have "len \<noteq> 1" using a by auto
    then have nz: "left \<noteq> 0" using a by simp
    have l: "fst (copy_to_user (one_byte k) buffer (uint copied) buf (uint copied) len) = len - 1"
      by (simp add: copy_to_user_def m)
    from step have "f one_byte buf len (Suc k) (len - 1) (len - (len - 1))
          (snd (copy_to_user (one_byte k) buffer (uint copied) buf (uint copied) len))
          (calls @ [(uint copied, len)]) = Some y"
      using nz a unfolding l by (simp del: one_byte.simps add: l)
    from IH[OF this] a show False by simp
  qed
qed

lemma copy_loop_one_byte_diverges:
  assumes "1 < len"
  shows "copy_loop one_byte buf len 0 len 0 buffer [] = None"
proof (cases "copy_loop one_byte buf len 0 len 0 buffer []")
  case None
  then show ?thesis .
next
  case (Some y)
  have m: "min 1 len = 1" using assms by (auto simp: min_def)
  have l: "fst (copy_to_user (one_byte 0) buffer (uint (0 :: u64)) buf (uint (0 :: u64)) len) = len - 1"
    by (simp add: copy_to_user_def m)
  have nz: "len \<noteq> 0" using assms by auto
  have "copy_loop one_byte buf len (Suc 0) (len - 1) (len - (len - 1))
          (snd (copy_to_user (one_byte 0) buffer (uint (0 :: u64)) buf (uint (0 :: u64)) len))
          ([] @ [(uint (0 :: u64), len)]) = Some y"
    using Some copy_loop.simps[of one_byte buf len 0 len 0 buffer "[]"] nz
    unfolding l by simp
  from copy_loop_one_byte_stuck[OF this] assms show ?thesis by simp
qed

text \<open>
  When the first call of \<open>copy_to_user\<close> copies all it is asked for, the call of \<open>poc_read\<close>
  returns \<open>len\<close> after at most one call of \<open>copy_to_user\<close>, and the first \<open>len\<close> bytes of the
  user buffer are the bytes generated (for every length up to \<open>2^31 - 8\<close>).
\<close>

lemma copy_loop_full_copy:
  assumes "len \<le> deliver 0"
  shows "copy_loop deliver buf len 0 len 0 buffer [] =
           Some ((\<lambda>a. if 0 \<le> a \<and> a < uint len then buf a else buffer a),
                 if len = 0 then [] else [(0, len)])"
proof (cases "len = 0")
  case True
  then show ?thesis by (subst copy_loop.simps) (auto simp: fun_eq_iff)
next
  case False
  have m: "min (deliver 0) len = len" using assms by (simp add: min_def)
  have c: "copy_to_user (deliver 0) buffer (uint (0 :: u64)) buf (uint (0 :: u64)) len
           = (0, (\<lambda>a. if 0 \<le> a \<and> a < uint len then buf a else buffer a))"
    by (auto simp: copy_to_user_def m fun_eq_iff)
  show ?thesis
    using False
    by (subst copy_loop.simps, simp only: c fst_conv snd_conv if_True)
       (subst copy_loop.simps, simp)
qed

lemma poc_read_full_copy:
  assumes "unat len \<le> 2 ^ 31 - 8" and "len \<le> deliver 0"
  shows "\<exists>r. poc_read e True (\<lambda>n. Some buf) deliver xp buffer len = Some r
           \<and> ret r = Inr (uint len)
           \<and> copy_calls r = (if len = 0 then [] else [(0, len)])
           \<and> percpu_state r = (next_state ^^ ((unat len + 7) div 8)) xp
           \<and> (\<forall>a. user_mem r a =
                  (if 0 \<le> a \<and> a < uint len
                   then union_byte e (out_word xp (nat a div 8)) (nat a mod 8)
                   else buffer a))"
proof -
  have "unat len \<le> 2147483640" using assms(1) by simp
  then have "int (unat len) \<le> 2147483640" by linarith
  then have u: "uint len \<le> 2147483640" by (simp only: uint_nat)
  have lo: "- (2 ^ 63) \<le> uint len"
    by (rule order_trans[of _ 0]) simp_all
  have hi: "uint len < 2 ^ 63"
    using u by (rule le_less_trans) simp
  have "signed_take_bit 63 (uint len) = uint len"
    using lo hi by (rule signed_take_bit_int_eq_self)
  then have s: "sint len = uint len"
    by (simp add: sint_uint)
  have "int (unat len) \<le> 8 * int ((unat len + 7) div 8)" by linarith
  then have g: "a < uint len \<Longrightarrow> a < 8 * int ((unat len + 7) div 8)" for a
    by (simp only: uint_nat)
  note c = copy_loop_full_copy[of len deliver, OF assms(2)]
  show ?thesis
    using g by (auto simp: poc_read_def gen_loop_eq[OF assms(1)] c s gen_mem_def)
qed

text \<open>
  The sizes requested from \<open>vmalloc\<close> for the lengths 0, 1, 4095, 4096 and 4097, and the
  calls with the lengths 0 and 1, which return when \<open>vmalloc\<close> returns a buffer: the
  copying loop makes no call, or one call that copies the single byte.
\<close>

lemma P2ROUNDUP_lengths:
  "P2ROUNDUP 0 8 = 0" "P2ROUNDUP 1 8 = 8" "P2ROUNDUP 4095 8 = 4096"
  "P2ROUNDUP 4096 8 = 4096" "P2ROUNDUP 4097 8 = 4104"
  by (simp_all add: P2ROUNDUP_def)

lemma poc_read_length_0:
  "poc_read e True (\<lambda>n. Some buf) deliver xp buffer 0 =
     Some \<lparr>ret = Inr 0, percpu_state = xp, user_mem = buffer, copy_calls = []\<rparr>"
  by (simp add: poc_read_def gen_loop.simps copy_loop.simps)

lemma poc_read_one_byte_length_1:
  "\<exists>r. poc_read e True (\<lambda>n. Some buf) one_byte xp buffer 1 = Some r
     \<and> ret r = Inr 1 \<and> copy_calls r = [(0, 1)]
     \<and> user_mem r = buffer(0 := union_byte e (fst (spl_rand_next xp)) 0)"
proof -
  have c: "copy_loop one_byte m 1 0 1 0 buffer [] = Some (buffer(0 := m 0), [(0, 1)])" for m
    apply (subst copy_loop.simps)
    apply (simp add: copy_to_user_def)
    apply (subst copy_loop.simps)
    apply (auto simp: fun_eq_iff)
    done
  show ?thesis
    by (simp add: poc_read_def gen_loop_eq c gen_mem_def out_word_def)
qed

text \<open>
  Claim C4 at a failing input. When \<open>copy_to_user\<close> copies one byte in every call, the calls
  of \<open>poc_read\<close> with the lengths 4095, 4096 and 4097 do not return: after every call of
  \<open>copy_to_user\<close>, \<open>left\<close> is \<open>len - 1\<close> again.
\<close>

theorem poc_read_one_byte_diverges:
  "poc_read e True (\<lambda>n. Some buf) one_byte xp buffer 4095 = None
   \<and> poc_read e True (\<lambda>n. Some buf) one_byte xp buffer 4096 = None
   \<and> poc_read e True (\<lambda>n. Some buf) one_byte xp buffer 4097 = None"
  by (simp add: poc_read_def gen_loop_eq copy_loop_one_byte_diverges)

lemma copy_loop_short_once:
  "copy_loop short_once buf 16 0 16 0 buffer [] =
     Some ((\<lambda>a. if 0 \<le> a \<and> a < 24 then buf a else buffer a), [(0, 16), (8, 16)])"
  apply (subst copy_loop.simps)
  apply (simp add: copy_to_user_def)
  apply (subst copy_loop.simps)
  apply (simp add: copy_to_user_def)
  apply (subst copy_loop.simps)
  apply (auto simp add: copy_to_user_def fun_eq_iff)
  done

text \<open>
  Claim C1 at a failing input. With the length 16, when the first call of \<open>copy_to_user\<close>
  copies 8 bytes, the second call is made at the offset 8 for the full length 16, not for
  the 8 bytes that remain: it reads the bytes 16 to 23 after the start of the scratch
  buffer, which has 16 bytes, and writes them to the bytes 16 to 23 of the user buffer.
\<close>

theorem poc_read_retry_overrun:
  "\<exists>r. poc_read e True (\<lambda>n. Some buf) short_once xp buffer 16 = Some r
     \<and> ret r = Inr 16
     \<and> copy_calls r = [(0, 16), (8, 16)]
     \<and> (\<forall>a. user_mem r a =
           (if 0 \<le> a \<and> a < 16
              then union_byte e (out_word xp (nat a div 8)) (nat a mod 8)
            else if 16 \<le> a \<and> a < 24 then buf a
            else buffer a))"
  by (simp add: poc_read_def gen_loop_eq copy_loop_short_once gen_mem_def)

subsection \<open>The jump\<close>

text \<open>The jump applies the polynomial \<open>jump_poly\<close> to the state.\<close>

lemma sxor_simps [simp]:
  "sxor (0, 0) s = s" "sxor s (0, 0) = s" "sxor s s = (0, 0)"
  by (simp_all add: sxor_def)

lemma sxor_assoc: "sxor (sxor a b) c = sxor a (sxor b c)"
  by (simp add: sxor_def ac_simps)

lemma sxor_commute: "sxor a b = sxor b a"
  by (simp add: sxor_def ac_simps)

lemma sxor_left_commute: "sxor a (sxor b c) = sxor b (sxor a c)"
  by (simp add: sxor_def ac_simps)

lemmas sxor_ac = sxor_assoc sxor_commute sxor_left_commute

lemma next_state_zero [simp]: "next_state (0, 0) = (0, 0)"
  by (simp add: next_state_def spl_rand_next_def)

lemma next_state_sxor: "next_state (sxor s t) = sxor (next_state s) (next_state t)"
  by (simp add: next_state_def spl_rand_next_def sxor_def Let_def ac_simps)

lemma evalp_zero [simp]: "evalp p (0, 0) = (0, 0)"
  by (induction p) simp_all

lemma evalp_sxor: "evalp p (sxor s t) = sxor (evalp p s) (evalp p t)"
  by (induction p arbitrary: s t) (simp_all add: next_state_sxor sxor_ac)

lemma evalp_next_state: "evalp p (next_state s) = next_state (evalp p s)"
  by (induction p arbitrary: s) (simp_all add: next_state_sxor)

lemma evalp_funpow: "evalp p ((next_state ^^ n) s) = (next_state ^^ n) (evalp p s)"
  by (induction n) (simp_all add: evalp_next_state)

lemma evalp_append:
  "evalp (p @ q) s = sxor (evalp p s) (evalp q ((next_state ^^ length p) s))"
  by (induction p arbitrary: s) (simp_all add: funpow_swap1 sxor_ac)

lemma jump_body_step:
  "jump_body j b (acc, s) =
     ((if j AND push_bit b 1 \<noteq> 0 then sxor acc s else acc), next_state s)"
  by (simp add: jump_body_def sxor_def next_state_def)

lemma fold_jump_body:
  "fold (jump_body j) bs (acc, s) =
     (sxor acc (evalp (map (\<lambda>b. j AND push_bit b 1 \<noteq> 0) bs) s), (next_state ^^ length bs) s)"
proof (induction bs arbitrary: acc s)
  case Nil
  show ?case by simp
next
  case (Cons b bs)
  have "fold (jump_body j) (b # bs) (acc, s) = fold (jump_body j) bs (jump_body j b (acc, s))"
    by simp
  also have "\<dots> = fold (jump_body j) bs
        ((if j AND push_bit b 1 \<noteq> 0 then sxor acc s else acc), next_state s)"
    by (simp only: jump_body_step)
  also have "\<dots> = (sxor (if j AND push_bit b 1 \<noteq> 0 then sxor acc s else acc)
        (evalp (map (\<lambda>b. j AND push_bit b 1 \<noteq> 0) bs) (next_state s)),
        (next_state ^^ length bs) (next_state s))"
    by (rule Cons.IH)
  also have "\<dots> = (sxor acc (evalp (map (\<lambda>b. j AND push_bit b 1 \<noteq> 0) (b # bs)) s),
        (next_state ^^ length (b # bs)) s)"
    by (simp add: funpow_swap1 sxor_assoc)
  finally show ?case .
qed

lemma spl_rand_jump_evalp: "spl_rand_jump s = evalp jump_poly s"
  by (simp add: spl_rand_jump_def jump_poly_def JUMP_def fold_jump_body evalp_append)

text \<open>The transition on bit lists.\<close>

lemma bx_eq: "bx a b = (a \<noteq> b)"
  by (cases a; cases b) simp_all

lemma bits_nth: "k < 64 \<Longrightarrow> bits w ! k = bit w k"
  by (simp add: bits_def)

lemma bit_u64_beyond: "\<not> k < 64 \<Longrightarrow> \<not> bit (w :: u64) k"
  by (auto dest: bit_imp_le_length)

lemma bits_xor: "bits (a XOR b) = x64 (bits a) (bits b)"
  by (simp add: bits_def x64_def bx_eq bit_xor_iff)

lemma bits_t: "bits (a XOR push_bit 23 a) = bt (bits a)"
  by (auto simp: bits_def bt_def bx_eq bit_xor_iff bit_push_bit_iff)

lemma bits_nth_guard: "(k < 64 \<and> bits w ! k) = bit w k"
  by (cases "k < 64") (simp_all add: bits_nth bit_u64_beyond)

lemma bits_n1: "bits (t XOR b XOR drop_bit 18 t XOR drop_bit 5 b) = bn1 (bits t) (bits b)"
proof -
  have "bn1 (bits t) (bits b) =
      map (\<lambda>k. bx (bx (bits t ! k) (bits b ! k)) (bx (bit t (k + 18)) (bit b (k + 5)))) [0..<64]"
    unfolding bn1_def bits_nth_guard ..
  also have "\<dots> = map (\<lambda>k. bx (bx (bit t k) (bit b k)) (bx (bit t (k + 18)) (bit b (k + 5)))) [0..<64]"
    by (simp add: bits_nth)
  also have "\<dots> = bits (t XOR b XOR drop_bit 18 t XOR drop_bit 5 b)"
    by (auto simp: bits_def bx_eq bit_xor_iff bit_drop_bit_eq add.commute)
  finally show ?thesis by simp
qed

lemma bits2_next_state: "bits2 (next_state s) = bnext (bits2 s)"
  by (simp add: bits2_def bnext_def next_state_def spl_rand_next_def Let_def bits_t bits_n1
      del: drop_bit_xor push_bit_xor)

lemma bits2_sxor: "bits2 (sxor a b) = (x64 (fst (bits2 a)) (fst (bits2 b)), x64 (snd (bits2 a)) (snd (bits2 b)))"
  by (simp add: bits2_def sxor_def bits_xor)

lemma bacc_bits2: "bacc p (bits2 s) (bits2 acc) = bits2 (sxor acc (evalp p s))"
proof (induction p arbitrary: s acc)
  case Nil
  show ?case by simp
next
  case (Cons b p)
  show ?case
  proof (cases b)
    case True
    have "bacc (b # p) (bits2 s) (bits2 acc) = bacc p (bits2 (next_state s)) (bits2 (sxor acc s))"
      by (simp add: True bits2_next_state bits2_sxor)
    then show ?thesis by (simp add: Cons.IH True sxor_assoc)
  next
    case False
    then show ?thesis by (simp add: bits2_next_state[symmetric] Cons.IH)
  qed
qed

lemma bits_inject: "bits a = bits b \<Longrightarrow> a = b"
proof (rule bit_eqI)
  fix k assume eq: "bits a = bits b"
  show "bit a k = bit b k"
  proof (cases "k < 64")
    case True
    then show ?thesis using eq bits_nth[of k a] bits_nth[of k b] by simp
  next
    case False
    then show ?thesis by (simp add: bit_u64_beyond)
  qed
qed

lemma bits2_inject: "bits2 s = bits2 t \<Longrightarrow> s = t"
  by (auto simp: bits2_def prod_eq_iff dest: bits_inject)

text \<open>
  \<open>cpoly\<close> maps every state to zero. The equations marked as code equations are the
  functions on bit lists of length 64, unrolled; with them the test of the 128 unit vectors
  is evaluated by rewriting.
\<close>

lemma bx_False_right: "bx a False = a"
  by (cases a) simp_all

lemma bt_code [code]:
  "bt [a0, a1, a2, a3, a4, a5, a6, a7,
      a8, a9, a10, a11, a12, a13, a14, a15,
      a16, a17, a18, a19, a20, a21, a22, a23,
      a24, a25, a26, a27, a28, a29, a30, a31,
      a32, a33, a34, a35, a36, a37, a38, a39,
      a40, a41, a42, a43, a44, a45, a46, a47,
      a48, a49, a50, a51, a52, a53, a54, a55,
      a56, a57, a58, a59, a60, a61, a62, a63] =
     [a0, a1, a2, a3,
     a4, a5, a6, a7,
     a8, a9, a10, a11,
     a12, a13, a14, a15,
     a16, a17, a18, a19,
     a20, a21, a22, bx a23 a0,
     bx a24 a1, bx a25 a2, bx a26 a3, bx a27 a4,
     bx a28 a5, bx a29 a6, bx a30 a7, bx a31 a8,
     bx a32 a9, bx a33 a10, bx a34 a11, bx a35 a12,
     bx a36 a13, bx a37 a14, bx a38 a15, bx a39 a16,
     bx a40 a17, bx a41 a18, bx a42 a19, bx a43 a20,
     bx a44 a21, bx a45 a22, bx a46 a23, bx a47 a24,
     bx a48 a25, bx a49 a26, bx a50 a27, bx a51 a28,
     bx a52 a29, bx a53 a30, bx a54 a31, bx a55 a32,
     bx a56 a33, bx a57 a34, bx a58 a35, bx a59 a36,
     bx a60 a37, bx a61 a38, bx a62 a39, bx a63 a40]"
  unfolding bt_def by (simp add: upt_rec)

lemma bn1_code [code]:
  "bn1 [t0, t1, t2, t3, t4, t5, t6, t7,
       t8, t9, t10, t11, t12, t13, t14, t15,
       t16, t17, t18, t19, t20, t21, t22, t23,
       t24, t25, t26, t27, t28, t29, t30, t31,
       t32, t33, t34, t35, t36, t37, t38, t39,
       t40, t41, t42, t43, t44, t45, t46, t47,
       t48, t49, t50, t51, t52, t53, t54, t55,
       t56, t57, t58, t59, t60, t61, t62, t63]
       [b0, b1, b2, b3, b4, b5, b6, b7,
        b8, b9, b10, b11, b12, b13, b14, b15,
        b16, b17, b18, b19, b20, b21, b22, b23,
        b24, b25, b26, b27, b28, b29, b30, b31,
        b32, b33, b34, b35, b36, b37, b38, b39,
        b40, b41, b42, b43, b44, b45, b46, b47,
        b48, b49, b50, b51, b52, b53, b54, b55,
        b56, b57, b58, b59, b60, b61, b62, b63] =
     [bx (bx t0 b0) (bx t18 b5), bx (bx t1 b1) (bx t19 b6),
     bx (bx t2 b2) (bx t20 b7), bx (bx t3 b3) (bx t21 b8),
     bx (bx t4 b4) (bx t22 b9), bx (bx t5 b5) (bx t23 b10),
     bx (bx t6 b6) (bx t24 b11), bx (bx t7 b7) (bx t25 b12),
     bx (bx t8 b8) (bx t26 b13), bx (bx t9 b9) (bx t27 b14),
     bx (bx t10 b10) (bx t28 b15), bx (bx t11 b11) (bx t29 b16),
     bx (bx t12 b12) (bx t30 b17), bx (bx t13 b13) (bx t31 b18),
     bx (bx t14 b14) (bx t32 b19), bx (bx t15 b15) (bx t33 b20),
     bx (bx t16 b16) (bx t34 b21), bx (bx t17 b17) (bx t35 b22),
     bx (bx t18 b18) (bx t36 b23), bx (bx t19 b19) (bx t37 b24),
     bx (bx t20 b20) (bx t38 b25), bx (bx t21 b21) (bx t39 b26),
     bx (bx t22 b22) (bx t40 b27), bx (bx t23 b23) (bx t41 b28),
     bx (bx t24 b24) (bx t42 b29), bx (bx t25 b25) (bx t43 b30),
     bx (bx t26 b26) (bx t44 b31), bx (bx t27 b27) (bx t45 b32),
     bx (bx t28 b28) (bx t46 b33), bx (bx t29 b29) (bx t47 b34),
     bx (bx t30 b30) (bx t48 b35), bx (bx t31 b31) (bx t49 b36),
     bx (bx t32 b32) (bx t50 b37), bx (bx t33 b33) (bx t51 b38),
     bx (bx t34 b34) (bx t52 b39), bx (bx t35 b35) (bx t53 b40),
     bx (bx t36 b36) (bx t54 b41), bx (bx t37 b37) (bx t55 b42),
     bx (bx t38 b38) (bx t56 b43), bx (bx t39 b39) (bx t57 b44),
     bx (bx t40 b40) (bx t58 b45), bx (bx t41 b41) (bx t59 b46),
     bx (bx t42 b42) (bx t60 b47), bx (bx t43 b43) (bx t61 b48),
     bx (bx t44 b44) (bx t62 b49), bx (bx t45 b45) (bx t63 b50),
     bx (bx t46 b46) b51, bx (bx t47 b47) b52,
     bx (bx t48 b48) b53, bx (bx t49 b49) b54,
     bx (bx t50 b50) b55, bx (bx t51 b51) b56,
     bx (bx t52 b52) b57, bx (bx t53 b53) b58,
     bx (bx t54 b54) b59, bx (bx t55 b55) b60,
     bx (bx t56 b56) b61, bx (bx t57 b57) b62,
     bx (bx t58 b58) b63, bx t59 b59,
     bx t60 b60, bx t61 b61,
     bx t62 b62, bx t63 b63]"
  unfolding bn1_def by (simp add: upt_rec bx_False_right)

lemma x64_code [code]:
  "x64 [a0, a1, a2, a3, a4, a5, a6, a7,
       a8, a9, a10, a11, a12, a13, a14, a15,
       a16, a17, a18, a19, a20, a21, a22, a23,
       a24, a25, a26, a27, a28, a29, a30, a31,
       a32, a33, a34, a35, a36, a37, a38, a39,
       a40, a41, a42, a43, a44, a45, a46, a47,
       a48, a49, a50, a51, a52, a53, a54, a55,
       a56, a57, a58, a59, a60, a61, a62, a63]
       [b0, b1, b2, b3, b4, b5, b6, b7,
        b8, b9, b10, b11, b12, b13, b14, b15,
        b16, b17, b18, b19, b20, b21, b22, b23,
        b24, b25, b26, b27, b28, b29, b30, b31,
        b32, b33, b34, b35, b36, b37, b38, b39,
        b40, b41, b42, b43, b44, b45, b46, b47,
        b48, b49, b50, b51, b52, b53, b54, b55,
        b56, b57, b58, b59, b60, b61, b62, b63] =
     [bx a0 b0, bx a1 b1, bx a2 b2, bx a3 b3,
     bx a4 b4, bx a5 b5, bx a6 b6, bx a7 b7,
     bx a8 b8, bx a9 b9, bx a10 b10, bx a11 b11,
     bx a12 b12, bx a13 b13, bx a14 b14, bx a15 b15,
     bx a16 b16, bx a17 b17, bx a18 b18, bx a19 b19,
     bx a20 b20, bx a21 b21, bx a22 b22, bx a23 b23,
     bx a24 b24, bx a25 b25, bx a26 b26, bx a27 b27,
     bx a28 b28, bx a29 b29, bx a30 b30, bx a31 b31,
     bx a32 b32, bx a33 b33, bx a34 b34, bx a35 b35,
     bx a36 b36, bx a37 b37, bx a38 b38, bx a39 b39,
     bx a40 b40, bx a41 b41, bx a42 b42, bx a43 b43,
     bx a44 b44, bx a45 b45, bx a46 b46, bx a47 b47,
     bx a48 b48, bx a49 b49, bx a50 b50, bx a51 b51,
     bx a52 b52, bx a53 b53, bx a54 b54, bx a55 b55,
     bx a56 b56, bx a57 b57, bx a58 b58, bx a59 b59,
     bx a60 b60, bx a61 b61, bx a62 b62, bx a63 b63]"
  unfolding x64_def by (simp add: upt_rec)

lemma check_units_64: "check_units 64"
  by code_simp

lemma check_units_imp:
  "check_units n \<Longrightarrow> j < n \<Longrightarrow>
     bacc cpoly (bunit j, zeros) (zeros, zeros) = (zeros, zeros)
     \<and> bacc cpoly (zeros, bunit j) (zeros, zeros) = (zeros, zeros)"
  by (induction n) (auto simp: less_Suc_eq)

lemma bits_zero: "bits 0 = zeros"
  by (auto simp: bits_def zeros_def list_eq_iff_nth_eq)

lemma bits_unit: "j < 64 \<Longrightarrow> bits (2 ^ j) = bunit j"
  by (auto simp: bits_def bunit_def bit_exp_iff)

lemma evalp_cpoly_unit:
  assumes "j < 64"
  shows "evalp cpoly (2 ^ j, 0) = (0, 0)" and "evalp cpoly (0, 2 ^ j) = (0, 0)"
proof -
  note c = check_units_imp[OF check_units_64 assms]
  have "bits2 (sxor (0, 0) (evalp cpoly (2 ^ j, 0))) = bits2 (0, 0)"
    unfolding bacc_bits2[symmetric] using c by (simp add: bits2_def bits_zero bits_unit assms)
  then show "evalp cpoly (2 ^ j, 0) = (0, 0)" by (auto dest: bits2_inject)
  have "bits2 (sxor (0, 0) (evalp cpoly (0, 2 ^ j))) = bits2 (0, 0)"
    unfolding bacc_bits2[symmetric] using c by (simp add: bits2_def bits_zero bits_unit assms)
  then show "evalp cpoly (0, 2 ^ j) = (0, 0)" by (auto dest: bits2_inject)
qed

lemma xor_linear_zero:
  fixes f :: "u64 \<Rightarrow> rstate"
  assumes add: "\<And>a b. f (a XOR b) = sxor (f a) (f b)"
    and unit: "\<And>j. j < 64 \<Longrightarrow> f (2 ^ j) = (0, 0)"
  shows "f w = (0, 0)"
proof -
  have z: "f 0 = (0, 0)" using add[of 0 0] by simp
  have "f (take_bit n w) = (0, 0)" if "n \<le> 64" for n
    using that
  proof (induction n)
    case 0
    show ?case by (simp add: z)
  next
    case (Suc n)
    have "take_bit (Suc n) w = take_bit n w XOR (if bit w n then 2 ^ n else 0)"
      by (rule bit_eqI) (auto simp: bit_take_bit_iff bit_xor_iff bit_exp_iff less_Suc_eq)
    then show ?case using Suc unit[of n] by (simp add: add z)
  qed
  moreover have "take_bit 64 w = w" by (rule take_bit_word_eq_self) simp
  ultimately show ?thesis using le_refl[of 64] by metis
qed

lemma evalp_cpoly: "evalp cpoly s = (0, 0)"
proof -
  have l: "evalp cpoly (a XOR b, 0) = sxor (evalp cpoly (a, 0)) (evalp cpoly (b, 0))" for a b
  proof -
    have "(a XOR b, 0) = sxor (a, 0) (b, 0)" by (simp add: sxor_def)
    then show ?thesis by (simp only: evalp_sxor)
  qed
  have r: "evalp cpoly (0, a XOR b) = sxor (evalp cpoly (0, a)) (evalp cpoly (0, b))" for a b
  proof -
    have "(0, a XOR b) = sxor (0, a) (0, b)" by (simp add: sxor_def)
    then show ?thesis by (simp only: evalp_sxor)
  qed
  have 1: "evalp cpoly (a, 0) = (0, 0)" for a
    by (rule xor_linear_zero[where f = "\<lambda>a. evalp cpoly (a, 0)"]) (simp_all add: l evalp_cpoly_unit)
  have 2: "evalp cpoly (0, b) = (0, 0)" for b
    by (rule xor_linear_zero[where f = "\<lambda>b. evalp cpoly (0, b)"]) (simp_all add: r evalp_cpoly_unit)
  have "s = sxor (fst s, 0) (0, snd s)" by (simp add: sxor_def)
  then have "evalp cpoly s = sxor (evalp cpoly (fst s, 0)) (evalp cpoly (0, snd s))"
    by (metis evalp_sxor)
  then show ?thesis by (simp add: 1 2)
qed

text \<open>
  Squaring modulo \<open>cpoly\<close>: after \<open>k\<close> squarings of \<open>x\<close> the polynomial stands for \<open>2^k\<close>
  transitions, and after 64 squarings it is \<open>jump_poly\<close>.
\<close>

lemma sxor_cancel [simp]: "sxor s (sxor s t) = t"
  by (simp add: sxor_def flip: xor.assoc)

lemma evalp_pxor:
  "length p = length q \<Longrightarrow> evalp (pxor p q) s = sxor (evalp p s) (evalp q s)"
proof (induction p q arbitrary: s rule: list_induct2)
  case Nil
  show ?case by (simp add: pxor_def)
next
  case (Cons a p b q)
  have "pxor (a # p) (b # q) = bx a b # pxor p q" by (simp add: pxor_def)
  then show ?case using Cons.IH[of "next_state s"]
    by (cases a; cases b) (simp_all add: sxor_ac)
qed

lemma length_pxor: "length (pxor p q) = min (length p) (length q)"
  by (simp add: pxor_def)

lemma last_pxor:
  "length p = length q \<Longrightarrow> p \<noteq> [] \<Longrightarrow> last (pxor p q) = bx (last p) (last q)"
  by (induction p q rule: list_induct2) (auto simp: pxor_def)

lemma evalp_snoc_False: "evalp (p @ [False]) s = evalp p s"
  by (simp add: evalp_append)

lemma evalp_butlast: "p \<noteq> [] \<Longrightarrow> \<not> last p \<Longrightarrow> evalp (butlast p) s = evalp p s"
  by (metis append_butlast_last_id evalp_snoc_False)

lemma length_cpoly: "length cpoly = 129"
  by (simp add: cpoly_def)

lemma last_cpoly: "last cpoly"
  by (simp add: cpoly_def)

lemma pstep_correct:
  assumes "length r = 128"
  shows "length (pstep b r) = 128" and "evalp (pstep b r) s = evalp (b # r) s"
proof -
  let ?q = "b # r"
  have len: "length ?q = length cpoly" using assms by (simp add: length_cpoly)
  show "length (pstep b r) = 128"
    using assms by (auto simp: pstep_def Let_def length_pxor length_cpoly)
  show "evalp (pstep b r) s = evalp (b # r) s"
  proof (cases "last ?q")
    case True
    have "last (pxor ?q cpoly) = bx (last ?q) (last cpoly)"
      using len by (intro last_pxor) simp_all
    then have nl: "\<not> last (pxor ?q cpoly)" using True last_cpoly by simp
    have ne: "pxor ?q cpoly \<noteq> []"
      using len by (metis length_pxor length_0_conv list.distinct(1) min.idem)
    have "pstep b r = butlast (pxor ?q cpoly)"
      unfolding pstep_def Let_def using True by (simp only: if_True)
    then have "evalp (pstep b r) s = evalp (pxor ?q cpoly) s"
      by (simp only: evalp_butlast[OF ne nl])
    also have "\<dots> = sxor (evalp ?q s) (evalp cpoly s)" using len by (rule evalp_pxor)
    finally show ?thesis by (simp add: evalp_cpoly)
  next
    case False
    have "pstep b r = butlast ?q"
      unfolding pstep_def Let_def using False by (simp only: if_False)
    moreover have "evalp (butlast ?q) s = evalp ?q s"
      using False by (intro evalp_butlast) simp_all
    ultimately show ?thesis by (simp only:)
  qed
qed

lemma pmod_correct: "length (pmod p) = 128 \<and> evalp (pmod p) s = evalp p s"
proof (induction p arbitrary: s)
  case Nil
  have "evalp (replicate n False) s = (0, 0)" for n s
    by (induction n arbitrary: s) simp_all
  then show ?case by simp
next
  case (Cons b p)
  then show ?case by (simp add: pstep_correct)
qed

lemma evalp_psq: "evalp (psq p) s = evalp p (evalp p s)"
proof (induction p arbitrary: s)
  case Nil
  show ?case by simp
next
  case (Cons b p)
  show ?case
    by (cases b) (simp_all add: Cons.IH evalp_sxor evalp_next_state next_state_sxor sxor_ac)
qed

lemma evalp_sqmod: "evalp (sqmod r) s = evalp r (evalp r s)"
  by (simp add: sqmod_def pmod_correct evalp_psq)

lemma evalp_xpoly: "evalp xpoly s = next_state s"
proof -
  have "evalp (replicate n False) s = (0, 0)" for n s
    by (induction n arbitrary: s) simp_all
  then show ?thesis by (simp add: xpoly_def)
qed

lemma evalp_pow: "evalp ((sqmod ^^ k) xpoly) s = (next_state ^^ (2 ^ k)) s"
proof (induction k arbitrary: s)
  case 0
  show ?case by (simp add: evalp_xpoly)
next
  case (Suc k)
  have "evalp ((sqmod ^^ Suc k) xpoly) s
        = (next_state ^^ (2 ^ k)) ((next_state ^^ (2 ^ k)) s)"
    by (simp add: evalp_sqmod Suc.IH)
  also have "\<dots> = (next_state ^^ (2 ^ k + 2 ^ k)) s" by (simp add: funpow_add)
  finally show ?case by (simp add: mult_2)
qed

lemma pstep_code [code]:
  "pstep b [r0, r1, r2, r3, r4, r5, r6, r7,
       r8, r9, r10, r11, r12, r13, r14, r15,
       r16, r17, r18, r19, r20, r21, r22, r23,
       r24, r25, r26, r27, r28, r29, r30, r31,
       r32, r33, r34, r35, r36, r37, r38, r39,
       r40, r41, r42, r43, r44, r45, r46, r47,
       r48, r49, r50, r51, r52, r53, r54, r55,
       r56, r57, r58, r59, r60, r61, r62, r63,
       r64, r65, r66, r67, r68, r69, r70, r71,
       r72, r73, r74, r75, r76, r77, r78, r79,
       r80, r81, r82, r83, r84, r85, r86, r87,
       r88, r89, r90, r91, r92, r93, r94, r95,
       r96, r97, r98, r99, r100, r101, r102, r103,
       r104, r105, r106, r107, r108, r109, r110, r111,
       r112, r113, r114, r115, r116, r117, r118, r119,
       r120, r121, r122, r123, r124, r125, r126, True] =
     [bx b True, bx r0 True, bx r1 True, bx r2 True,
     r3, bx r4 True, r5, bx r6 True,
     bx r7 True, r8, bx r9 True, bx r10 True,
     bx r11 True, r12, r13, r14,
     r15, bx r16 True, bx r17 True, r18,
     r19, bx r20 True, bx r21 True, bx r22 True,
     bx r23 True, r24, r25, bx r26 True,
     r27, bx r28 True, bx r29 True, bx r30 True,
     r31, bx r32 True, r33, bx r34 True,
     bx r35 True, bx r36 True, bx r37 True, bx r38 True,
     r39, bx r40 True, bx r41 True, r42,
     r43, r44, r45, r46,
     bx r47 True, bx r48 True, bx r49 True, bx r50 True,
     r51, r52, bx r53 True, r54,
     r55, bx r56 True, r57, r58,
     r59, r60, r61, r62,
     r63, r64, r65, r66,
     bx r67 True, bx r68 True, r69, bx r70 True,
     bx r71 True, r72, bx r73 True, bx r74 True,
     bx r75 True, bx r76 True, bx r77 True, r78,
     bx r79 True, bx r80 True, bx r81 True, bx r82 True,
     r83, bx r84 True, r85, bx r86 True,
     r87, r88, bx r89 True, bx r90 True,
     r91, bx r92 True, r93, r94,
     r95, r96, bx r97 True, r98,
     bx r99 True, r100, bx r101 True, bx r102 True,
     bx r103 True, r104, bx r105 True, r106,
     r107, r108, bx r109 True, bx r110 True,
     r111, r112, bx r113 True, r114,
     r115, r116, bx r117 True, r118,
     r119, r120, r121, bx r122 True,
     r123, bx r124 True, r125, r126]"
  "pstep b [r0, r1, r2, r3, r4, r5, r6, r7,
       r8, r9, r10, r11, r12, r13, r14, r15,
       r16, r17, r18, r19, r20, r21, r22, r23,
       r24, r25, r26, r27, r28, r29, r30, r31,
       r32, r33, r34, r35, r36, r37, r38, r39,
       r40, r41, r42, r43, r44, r45, r46, r47,
       r48, r49, r50, r51, r52, r53, r54, r55,
       r56, r57, r58, r59, r60, r61, r62, r63,
       r64, r65, r66, r67, r68, r69, r70, r71,
       r72, r73, r74, r75, r76, r77, r78, r79,
       r80, r81, r82, r83, r84, r85, r86, r87,
       r88, r89, r90, r91, r92, r93, r94, r95,
       r96, r97, r98, r99, r100, r101, r102, r103,
       r104, r105, r106, r107, r108, r109, r110, r111,
       r112, r113, r114, r115, r116, r117, r118, r119,
       r120, r121, r122, r123, r124, r125, r126, False] =
     [b, r0, r1, r2, r3, r4, r5, r6,
     r7, r8, r9, r10, r11, r12, r13, r14,
     r15, r16, r17, r18, r19, r20, r21, r22,
     r23, r24, r25, r26, r27, r28, r29, r30,
     r31, r32, r33, r34, r35, r36, r37, r38,
     r39, r40, r41, r42, r43, r44, r45, r46,
     r47, r48, r49, r50, r51, r52, r53, r54,
     r55, r56, r57, r58, r59, r60, r61, r62,
     r63, r64, r65, r66, r67, r68, r69, r70,
     r71, r72, r73, r74, r75, r76, r77, r78,
     r79, r80, r81, r82, r83, r84, r85, r86,
     r87, r88, r89, r90, r91, r92, r93, r94,
     r95, r96, r97, r98, r99, r100, r101, r102,
     r103, r104, r105, r106, r107, r108, r109, r110,
     r111, r112, r113, r114, r115, r116, r117, r118,
     r119, r120, r121, r122, r123, r124, r125, r126]"
  by (simp_all add: pstep_def pxor_def cpoly_def bx_False_right)

lemma jump_poly_eq: "jump_poly =
    [True, True, True, True, True, True, True, True,
     True, False, True, True, False, True, False, False,
     True, False, True, True, True, False, True, False,
     True, True, False, False, False, True, True, False,
     True, False, False, True, False, False, False, True,
     True, True, True, False, True, False, True, True,
     False, False, True, True, True, False, True, False,
     False, True, False, True, False, False, False, True,
     False, True, True, False, True, False, False, True,
     True, True, True, True, False, True, False, False,
     True, True, True, False, False, False, True, False,
     False, False, True, True, True, False, True, False,
     True, False, True, False, True, False, False, False,
     False, True, False, False, True, False, True, True,
     True, True, True, True, True, False, False, False,
     False, True, False, False, True, False, False, False]"
  by (simp add: jump_poly_def JUMP_def upt_rec flip: bit_iff_and_push_bit_not_eq_0)

lemma pow_64: "(sqmod ^^ 64) xpoly =
    [True, True, True, True, True, True, True, True,
     True, False, True, True, False, True, False, False,
     True, False, True, True, True, False, True, False,
     True, True, False, False, False, True, True, False,
     True, False, False, True, False, False, False, True,
     True, True, True, False, True, False, True, True,
     False, False, True, True, True, False, True, False,
     False, True, False, True, False, False, False, True,
     False, True, True, False, True, False, False, True,
     True, True, True, True, False, True, False, False,
     True, True, True, False, False, False, True, False,
     False, False, True, True, True, False, True, False,
     True, False, True, False, True, False, False, False,
     False, True, False, False, True, False, True, True,
     True, True, True, True, True, False, False, False,
     False, True, False, False, True, False, False, False]"
  by code_simp

text \<open>The jump from the state \<open>(1, 0)\<close>, evaluated on bit lists.\<close>

lemma spl_rand_jump_example:
  "spl_rand_jump (1, 0) = (0xF9273F3BDF5983A9, 0xCA5BE57008E31C4A)"
proof -
  have "bits2 (spl_rand_jump (1, 0)) = bacc jump_poly (bits2 (1, 0)) (bits2 (0, 0))"
    by (simp add: spl_rand_jump_evalp bacc_bits2)
  also have "\<dots> = bacc jump_poly (bunit 0, zeros) (zeros, zeros)"
    using bits_unit[of 0] by (simp add: bits2_def bits_zero)
  also have "\<dots> =
    ([True, False, False, True, False, True, False, True,
      True, True, False, False, False, False, False, True,
      True, False, False, True, True, False, True, False,
      True, True, True, True, True, False, True, True,
      True, True, False, True, True, True, False, False,
      True, True, True, True, True, True, False, False,
      True, True, True, False, False, True, False, False,
      True, False, False, True, True, True, True, True],
     [False, True, False, True, False, False, True, False,
      False, False, True, True, True, False, False, False,
      True, True, False, False, False, True, True, True,
      False, False, False, True, False, False, False, False,
      False, False, False, False, True, True, True, False,
      True, False, True, False, False, True, True, True,
      True, True, False, True, True, False, True, False,
      False, True, False, True, False, False, True, True])"
    unfolding jump_poly_eq by code_simp
  also have "\<dots> = bits2 (0xF9273F3BDF5983A9, 0xCA5BE57008E31C4A)"
    by (simp add: bits2_def bits_def upt_rec)
  finally show ?thesis by (rule bits2_inject)
qed

text \<open>
  Claim C9. For every state, \<open>spl_rand_jump\<close> yields the state that \<open>2^64\<close> calls of
  \<open>spl_rand_next\<close> yield, and two jumps yield the state after \<open>2^65\<close> calls.
\<close>

theorem spl_rand_jump_is_2_64_steps:
  "spl_rand_jump s = (next_state ^^ (2 ^ 64)) s
   \<and> spl_rand_jump (spl_rand_jump s) = (next_state ^^ (2 ^ 65)) s"
proof -
  have j: "spl_rand_jump s = (next_state ^^ (2 ^ 64)) s" for s
    unfolding spl_rand_jump_evalp jump_poly_eq pow_64[symmetric] by (rule evalp_pow)
  have "(next_state ^^ (2 ^ 64)) ((next_state ^^ (2 ^ 64)) s) = (next_state ^^ (2 ^ 64 + 2 ^ 64)) s"
    by (simp only: funpow_add comp_apply)
  moreover have "(2::nat) ^ 64 + 2 ^ 64 = 2 ^ 65" by simp
  ultimately show ?thesis by (simp only: j simp_thms)
qed

theorem spl_rand_jump_is_2_64_steps_witness:
  "(next_state ^^ (2 ^ 64)) (1, 0) = (0xF9273F3BDF5983A9, 0xCA5BE57008E31C4A)"
  using spl_rand_jump_is_2_64_steps[of "(1, 0)"] by (simp only: spl_rand_jump_example)

end
